theory Spec2Isabelle
  imports Complex_Main "HOL-Library.Word" "HOL-Library.Sublist"
begin

section \<open>Characters and C strings\<close>

text \<open>
  A \<^verbatim>\<open>char\<close> is one byte. Whether plain \<^verbatim>\<open>char\<close> is signed is fixed by the
  platform, not by the program, so the only place where it matters (the subtraction
  \<^verbatim>\<open>str1[i] - str2[i]\<close> of \<^verbatim>\<open>stringCompare\<close>, after integer promotion) takes it as the
  parameter \<open>signed_char\<close>.
\<close>

type_synonym byte = "8 word"

text \<open>The bytes of a string literal.\<close>

definition bytes :: "string \<Rightarrow> byte list" where
  "bytes s = map of_char s"

definition char_value :: "bool \<Rightarrow> byte \<Rightarrow> int" where
  "char_value signed_char c = (if signed_char then sint c else uint c)"

text \<open>
  A \<^verbatim>\<open>const char*\<close> argument is \<open>None\<close> for \<^verbatim>\<open>nullptr\<close> and otherwise \<open>Some cs\<close>, a
  pointer to the array \<open>cs @ [0]\<close>: the chars \<open>cs\<close> followed by the array's final
  terminator. \<open>cs\<close> itself may hold further zero bytes; a scan for the terminator stops
  at the first of them. The helper \<open>char_at\<close> reads \<^verbatim>\<open>str[0]\<close> of such an array.
\<close>

definition char_at :: "byte list \<Rightarrow> byte" where
  "char_at cs = (case cs of [] \<Rightarrow> 0 | c # _ \<Rightarrow> c)"

text \<open>\<^verbatim>\<open>stringLength\<close>: count chars until the terminator is reached.\<close>

fun stringLength_loop :: "byte list \<Rightarrow> int \<Rightarrow> int" where
  "stringLength_loop [] count = count"
| "stringLength_loop (c # cs) count =
     (if c \<noteq> 0 then stringLength_loop cs (count + 1) else count)"

definition stringLength :: "byte list option \<Rightarrow> int" where
  "stringLength str = (case str of None \<Rightarrow> 0 | Some cs \<Rightarrow> stringLength_loop cs 0)"

text \<open>
  \<^verbatim>\<open>stringCopy(destination, source, length)\<close> copies \<open>length\<close> chars and then writes the
  terminator. The result is the chars of the destination in front of that terminator.
  Every caller passes a \<open>length\<close> that is at most the number of chars of the source,
  and two pointers to live arrays, so the guard against \<^verbatim>\<open>nullptr\<close> is never taken.
\<close>

definition stringCopy :: "byte list \<Rightarrow> int \<Rightarrow> byte list" where
  "stringCopy source n = take (nat n) source"

text \<open>
  \<^verbatim>\<open>stringCompare\<close>: the loop runs while both chars are not the terminator and returns
  the difference of the first pair of chars that differ; after the loop it returns the
  difference of the two chars it stopped at.
\<close>

fun stringCompare_loop :: "bool \<Rightarrow> byte list \<Rightarrow> byte list \<Rightarrow> int" where
  "stringCompare_loop sc (x # xs) (y # ys) =
     (if x \<noteq> 0 \<and> y \<noteq> 0
      then (if x \<noteq> y then char_value sc x - char_value sc y
            else stringCompare_loop sc xs ys)
      else char_value sc x - char_value sc y)"
| "stringCompare_loop sc xs ys = char_value sc (char_at xs) - char_value sc (char_at ys)"

definition stringCompare :: "bool \<Rightarrow> byte list option \<Rightarrow> byte list option \<Rightarrow> int" where
  "stringCompare sc str1 str2 =
     (case (str1, str2) of
        (None, None) \<Rightarrow> 0
      | (None, Some _) \<Rightarrow> - 1
      | (Some _, None) \<Rightarrow> 1
      | (Some xs, Some ys) \<Rightarrow> stringCompare_loop sc xs ys)"

section \<open>DSString values\<close>

text \<open>
  The class keeps \<^verbatim>\<open>data\<close>, a heap array of \<^verbatim>\<open>length + 1\<close> chars whose last char is the
  terminator, and \<^verbatim>\<open>length\<close>. A value of the class is its \<^verbatim>\<open>length\<close> chars in front of
  that terminator: the array is \<open>data s @ [0]\<close> and \<^verbatim>\<open>length\<close> is the number of chars.
  The section on object identity below keeps the pointer, the array and the length field
  apart.
\<close>

record DSString =
  data :: "byte list"

definition DSString_size :: "DSString \<Rightarrow> int" where
  "DSString_size s = int (length (data s))"

definition c_str :: "DSString \<Rightarrow> byte list option" where
  "c_str s = Some (data s)"

definition DSString_default :: DSString where
  "DSString_default = \<lparr>data = []\<rparr>"

definition DSString_cstr :: "byte list option \<Rightarrow> DSString" where
  "DSString_cstr str =
     (case str of
        None \<Rightarrow> \<lparr>data = []\<rparr>
      | Some cs \<Rightarrow> \<lparr>data = stringCopy cs (stringLength str)\<rparr>)"

definition DSString_copy :: "DSString \<Rightarrow> DSString" where
  "DSString_copy other = \<lparr>data = stringCopy (data other) (DSString_size other)\<rparr>"

definition operator_plus :: "DSString \<Rightarrow> DSString \<Rightarrow> DSString" where
  "operator_plus s other =
     \<lparr>data = stringCopy (data s) (DSString_size s)
              @ map (\<lambda>i. data other ! i) [0 ..< nat (DSString_size other)]\<rparr>"

fun chars_equal :: "byte list \<Rightarrow> byte list \<Rightarrow> bool" where
  "chars_equal (x # xs) (y # ys) = (if x \<noteq> y then False else chars_equal xs ys)"
| "chars_equal xs ys = True"

definition operator_eq :: "DSString \<Rightarrow> DSString \<Rightarrow> bool" where
  "operator_eq s other =
     (if DSString_size s \<noteq> DSString_size other then False
      else chars_equal (data s) (data other))"

definition operator_less :: "bool \<Rightarrow> DSString \<Rightarrow> DSString \<Rightarrow> bool" where
  "operator_less sc s other = (stringCompare sc (c_str s) (c_str other) < 0)"

definition operator_greater :: "bool \<Rightarrow> DSString \<Rightarrow> DSString \<Rightarrow> bool" where
  "operator_greater sc s other = (stringCompare sc (c_str s) (c_str other) > 0)"

text \<open>
  \<^verbatim>\<open>operator[]\<close> does no bounds check. The array has \<^verbatim>\<open>length + 1\<close> chars, so a read is
  defined at the indices \<open>0 .. length\<close>; any other index is outside the array. A write
  through the returned reference is modelled at the positions of the string's chars,
  \<open>0 .. length - 1\<close>.
\<close>

datatype error = out_of_bounds | bad_array_new_length | dangling_pointer

definition operator_index :: "DSString \<Rightarrow> int \<Rightarrow> error + byte" where
  "operator_index s i =
     (if 0 \<le> i \<and> i \<le> DSString_size s then Inr ((data s @ [0]) ! nat i)
      else Inl out_of_bounds)"

definition operator_index_write :: "DSString \<Rightarrow> int \<Rightarrow> byte \<Rightarrow> error + DSString" where
  "operator_index_write s i c =
     (if 0 \<le> i \<and> i < DSString_size s then Inr \<lparr>data = (data s)[nat i := c]\<rparr>
      else Inl out_of_bounds)"

definition no_nul :: "DSString \<Rightarrow> bool" where
  "no_nul s = (0 \<notin> set (data s))"

text \<open>
  \<^verbatim>\<open>toLowerCase\<close> tests \<^verbatim>\<open>data[i] >= 'A' && data[i] <= 'Z'\<close> and adds 32. The test picks
  the bytes 65 .. 90 whether \<^verbatim>\<open>char\<close> is signed or not (lemma \<open>is_upper_char_value\<close>).
\<close>

definition is_upper :: "byte \<Rightarrow> bool" where
  "is_upper c = (65 \<le> c \<and> c \<le> 90)"

definition toLowerCase :: "DSString \<Rightarrow> DSString" where
  "toLowerCase s = \<lparr>data = map (\<lambda>c. if is_upper c then c + 32 else c) (data s)\<rparr>"

text \<open>
  \<^verbatim>\<open>substring\<close>. The parameters and \<^verbatim>\<open>length\<close> are 32-bit \<^verbatim>\<open>int\<close>s; \<open>int32\<close> is the value an
  \<^verbatim>\<open>int\<close> addition leaves after two's complement wrap-around. \<^verbatim>\<open>new char[n]\<close> with a
  negative \<open>n\<close> throws \<^verbatim>\<open>std::bad_array_new_length\<close>. The copy loop reads
  \<^verbatim>\<open>data[start + i]\<close> from the array of \<^verbatim>\<open>length + 1\<close> chars.
\<close>

definition int32 :: "int \<Rightarrow> int" where
  "int32 x = (x + 2 ^ 31) mod 2 ^ 32 - 2 ^ 31"

fun copy_chars :: "byte list \<Rightarrow> nat \<Rightarrow> nat \<Rightarrow> error + byte list" where
  "copy_chars arr k 0 = Inr []"
| "copy_chars arr k (Suc n) =
     (if k < length arr
      then (case copy_chars arr (Suc k) n of
              Inl e \<Rightarrow> Inl e
            | Inr cs \<Rightarrow> Inr (arr ! k # cs))
      else Inl out_of_bounds)"

definition substring :: "DSString \<Rightarrow> int \<Rightarrow> int \<Rightarrow> error + DSString" where
  "substring s start numChars =
     (if start < 0 \<or> start \<ge> DSString_size s \<or> numChars \<le> 0 then Inr DSString_default
      else
        let numChars' = (if int32 (start + numChars) > DSString_size s
                         then DSString_size s - start else numChars)
        in if int32 (numChars' + 1) < 0 then Inl bad_array_new_length
           else (case copy_chars (data s @ [0]) (nat start) (nat numChars') of
                   Inl e \<Rightarrow> Inl e
                 | Inr subData \<Rightarrow> Inr \<lparr>data = subData\<rparr>))"

section \<open>Tokenizer and CSV parser\<close>

text \<open>
  The delimiter literal
  \<^verbatim>\<open>" ,.!?;:\"'()[]{}@#$%^&*-_=+<>/\\|~`"\<close>, char by char: space, comma, full stop,
  exclamation mark, question mark, semicolon, colon, double quote, apostrophe, the three
  pairs of brackets, at sign, hash, dollar, percent, caret, ampersand, asterisk, hyphen,
  underscore, equals, plus, less, greater, slash, backslash, bar, tilde, backtick.
\<close>

definition delimiters :: "byte list" where
  "delimiters =
     [32, 44, 46, 33, 63, 59, 58, 34, 39, 40, 41, 91, 93, 123, 125, 64, 35, 36, 37, 94,
      38, 42, 45, 95, 61, 43, 60, 62, 47, 92, 124, 126, 96]"

fun find_delimiter :: "byte \<Rightarrow> byte list \<Rightarrow> bool" where
  "find_delimiter c [] = False"
| "find_delimiter c (d # ds) = (if c = d then True else find_delimiter c ds)"

definition isDelimiter :: "byte \<Rightarrow> bool" where
  "isDelimiter c = find_delimiter c delimiters"

text \<open>
  The local array \<^verbatim>\<open>char temp[2] = {c, '\0'}\<close> is the C string \<open>Some [c]\<close>. The loop over
  \<^verbatim>\<open>i < lowerText.size()\<close> with \<^verbatim>\<open>c = lowerText[i]\<close> visits the chars of the string in
  order.
\<close>

fun tokenize_loop ::
  "byte list \<Rightarrow> DSString list \<Rightarrow> DSString \<Rightarrow> DSString list \<times> DSString" where
  "tokenize_loop [] tokens currentWord = (tokens, currentWord)"
| "tokenize_loop (c # cs) tokens currentWord =
     (if isDelimiter c
      then (if DSString_size currentWord > 0
            then tokenize_loop cs (tokens @ [currentWord]) DSString_default
            else tokenize_loop cs tokens currentWord)
      else tokenize_loop cs tokens (operator_plus currentWord (DSString_cstr (Some [c]))))"

definition tokenizeTweet :: "DSString \<Rightarrow> DSString list" where
  "tokenizeTweet tweetText =
     (let lowerText = toLowerCase tweetText;
          (tokens, currentWord) = tokenize_loop (data lowerText) [] DSString_default
      in if DSString_size currentWord > 0 then tokens @ [currentWord] else tokens)"

fun parseCSV_loop ::
  "byte list \<Rightarrow> DSString list \<Rightarrow> DSString \<Rightarrow> bool \<Rightarrow> DSString list \<times> DSString" where
  "parseCSV_loop [] fields' currentField inQuotes = (fields', currentField)"
| "parseCSV_loop (c # cs) fields' currentField inQuotes =
     (if c = 34 then parseCSV_loop cs fields' currentField (\<not> inQuotes)
      else if c = 44 \<and> \<not> inQuotes
      then parseCSV_loop cs (fields' @ [currentField]) DSString_default inQuotes
      else parseCSV_loop cs fields'
             (operator_plus currentField (DSString_cstr (Some [c]))) inQuotes)"

definition parseCSVLine :: "DSString \<Rightarrow> bool \<Rightarrow> DSString list" where
  "parseCSVLine line hasSentiment =
     (let (fields', currentField) = parseCSV_loop (data line) [] DSString_default False
      in fields' @ [currentField])"

section \<open>The classifier\<close>

text \<open>
  Both \<^verbatim>\<open>std::map\<close>s order their keys with \<^verbatim>\<open>operator<\<close>, and two keys name the same
  entry when neither is less than the other, that is when \<^verbatim>\<open>stringCompare\<close> returns 0.
  That holds exactly when the two C strings agree up to their first terminator (lemma
  \<open>stringCompare_zero_iff_map_key\<close>), so a map is a partial function on \<open>map_key\<close>.
  The score of \<^verbatim>\<open>calculateSentimentScore\<close> is a 32-bit \<^verbatim>\<open>int\<close>: the difference of the two
  counts and the sum \<^verbatim>\<open>score += ...\<close> are taken with wrap-around (\<open>int32\<close>). The counters
  of \<^verbatim>\<open>train\<close> are counted up from 0 one occurrence at a time and are kept as integers.
\<close>

definition map_key :: "DSString \<Rightarrow> byte list" where
  "map_key s = takeWhile (\<lambda>c. c \<noteq> 0) (data s)"

record SentimentClassifier =
  wordSentimentCounts :: "byte list \<rightharpoonup> int \<times> int"
  predictions :: "byte list \<rightharpoonup> int"
  totalPositiveTweets :: int
  totalNegativeTweets :: int

definition SentimentClassifier_init :: SentimentClassifier where
  "SentimentClassifier_init =
     \<lparr>wordSentimentCounts = Map.empty, predictions = Map.empty,
      totalPositiveTweets = 0, totalNegativeTweets = 0\<rparr>"

fun score_loop :: "(byte list \<rightharpoonup> int \<times> int) \<Rightarrow> DSString list \<Rightarrow> int \<Rightarrow> int" where
  "score_loop m [] score = score"
| "score_loop m (token # rest) score =
     (case m (map_key token) of
        None \<Rightarrow> score_loop m rest score
      | Some counts \<Rightarrow>
          score_loop m rest (int32 (score + int32 (fst counts - snd counts))))"

definition calculateSentimentScore :: "SentimentClassifier \<Rightarrow> DSString list \<Rightarrow> int" where
  "calculateSentimentScore st tokens = score_loop (wordSentimentCounts st) tokens 0"

text \<open>
  The inner loop of \<^verbatim>\<open>train\<close>. \<^verbatim>\<open>wordSentimentCounts[token]\<close> inserts the pair \<open>(0, 0)\<close>
  for a key that is not in the map yet and returns a reference to the entry.
\<close>

fun update_counts ::
  "int \<Rightarrow> DSString list \<Rightarrow> (byte list \<rightharpoonup> int \<times> int) \<Rightarrow> (byte list \<rightharpoonup> int \<times> int)" where
  "update_counts sentiment [] m = m"
| "update_counts sentiment (token # rest) m =
     (if DSString_size token \<le> 1 then update_counts sentiment rest m
      else
        let counts = (case m (map_key token) of None \<Rightarrow> (0, 0) | Some p \<Rightarrow> p);
            counts' = (if sentiment = 4 then (fst counts + 1, snd counts)
                       else (fst counts, snd counts + 1))
        in update_counts sentiment rest (m(map_key token \<mapsto> counts')))"

text \<open>
  One pass of the \<^verbatim>\<open>while (std::getline(inFile, line))\<close> body of \<^verbatim>\<open>train\<close> after the
  header line. \<open>line\<close> is the \<^verbatim>\<open>std::string\<close> read; \<^verbatim>\<open>line.c_str()\<close> is \<open>Some line\<close>.
\<close>

definition train_line :: "SentimentClassifier \<Rightarrow> byte list \<Rightarrow> error + SentimentClassifier" where
  "train_line st line =
     (let dsLine = DSString_cstr (Some line);
          fields' = parseCSVLine dsLine True
      in if length fields' < 6 then Inr st
         else
           let sentimentStr = DSString_copy (fields' ! 0);
               tweetID = DSString_copy (fields' ! 1);
               tweetText = DSString_copy (fields' ! 5)
           in (case operator_index sentimentStr 0 of
                 Inl e \<Rightarrow> Inl e
               | Inr c \<Rightarrow>
                   let sentiment = (if c = 52 then 4 else 0);
                       st1 = (if c = 52
                              then st\<lparr>totalPositiveTweets := totalPositiveTweets st + 1\<rparr>
                              else st\<lparr>totalNegativeTweets := totalNegativeTweets st + 1\<rparr>);
                       tokens = tokenizeTweet tweetText
                   in Inr (st1\<lparr>wordSentimentCounts :=
                             update_counts sentiment tokens (wordSentimentCounts st1)\<rparr>)))"

fun train_loop :: "SentimentClassifier \<Rightarrow> byte list list \<Rightarrow> error + SentimentClassifier" where
  "train_loop st [] = Inr st"
| "train_loop st (line # rest) =
     (case train_line st line of Inl e \<Rightarrow> Inl e | Inr st' \<Rightarrow> train_loop st' rest)"

text \<open>
  A file is \<open>None\<close> when it cannot be opened and otherwise the list of its lines. The
  first line is the header and is skipped.
\<close>

definition train ::
  "SentimentClassifier \<Rightarrow> byte list list option \<Rightarrow> error + bool \<times> SentimentClassifier" where
  "train st trainingDataFile =
     (case trainingDataFile of
        None \<Rightarrow> Inr (False, st)
      | Some lines \<Rightarrow>
          (case train_loop st (drop 1 lines) of
             Inl e \<Rightarrow> Inl e
           | Inr st' \<Rightarrow> Inr (True, st')))"

text \<open>
  \<^verbatim>\<open>predict\<close>. A line \<^verbatim>\<open><sentiment>,<tweetID>\<close> of the predictions file is kept as the pair
  of the integer and the string that are printed.
\<close>

definition predict_line ::
  "SentimentClassifier \<times> (int \<times> DSString) list \<Rightarrow> byte list
     \<Rightarrow> SentimentClassifier \<times> (int \<times> DSString) list" where
  "predict_line acc line =
     (let st = fst acc; outFile = snd acc;
          dsLine = DSString_cstr (Some line);
          fields' = parseCSVLine dsLine False
      in if length fields' < 5 then (st, outFile)
         else
           let tweetID = DSString_copy (fields' ! 0);
               tweetText = DSString_copy (fields' ! 4);
               tokens = tokenizeTweet tweetText;
               score = calculateSentimentScore st tokens;
               predictedSentiment = (if score > 0 then 4 else 0)
           in (st\<lparr>predictions := (predictions st)(map_key tweetID \<mapsto> predictedSentiment)\<rparr>,
               outFile @ [(predictedSentiment, tweetID)]))"

definition predict ::
  "SentimentClassifier \<Rightarrow> byte list list option \<Rightarrow> bool
     \<Rightarrow> bool \<times> SentimentClassifier \<times> (int \<times> DSString) list" where
  "predict st testDataFile outFile_opens =
     (case testDataFile of
        None \<Rightarrow> (False, st, [])
      | Some lines \<Rightarrow>
          if \<not> outFile_opens then (False, st, [])
          else (let (st', outFile) = foldl predict_line (st, []) (drop 1 lines)
                in (True, st', outFile)))"









section \<open>Objects, pointers and arrays\<close>

text \<open>
  For the copy operations the pointer matters. An object of the class holds the address
  \<^verbatim>\<open>data\<close> of its array and \<^verbatim>\<open>length\<close>; the memory maps the addresses of live objects to
  the objects and the addresses of live arrays to their chars. \<^verbatim>\<open>new char[n]\<close> returns
  an address that is not the address of a live array; the operations take that address
  as the parameter \<open>p\<close>. An array written by \<^verbatim>\<open>stringCopy\<close> has the copied chars and the
  terminator.
\<close>

type_synonym addr = nat

record DSString_obj =
  data_ptr :: addr
  length_fld :: int

record memory =
  objects :: "addr \<rightharpoonup> DSString_obj"
  arrays :: "addr \<rightharpoonup> byte list"

definition copy_constructor :: "memory \<Rightarrow> addr \<Rightarrow> addr \<Rightarrow> addr \<Rightarrow> error + memory" where
  "copy_constructor mem this p other =
     (case objects mem other of
        None \<Rightarrow> Inl dangling_pointer
      | Some ob \<Rightarrow>
          (case arrays mem (data_ptr ob) of
             None \<Rightarrow> Inl dangling_pointer
           | Some src \<Rightarrow>
               Inr (mem\<lparr>objects := (objects mem)(this \<mapsto> \<lparr>data_ptr = p, length_fld = length_fld ob\<rparr>),
                        arrays := (arrays mem)(p \<mapsto> stringCopy src (length_fld ob) @ [0])\<rparr>)))"

definition operator_assign :: "memory \<Rightarrow> addr \<Rightarrow> addr \<Rightarrow> addr \<Rightarrow> error + memory" where
  "operator_assign mem this p other =
     (if this = other then Inr mem
      else
        (case (objects mem this, objects mem other) of
           (Some tb, Some ob) \<Rightarrow>
             let arrays1 = (arrays mem)(data_ptr tb := None)
             in (case arrays1 (data_ptr ob) of
                   None \<Rightarrow> Inl dangling_pointer
                 | Some src \<Rightarrow>
                     Inr (mem\<lparr>objects := (objects mem)(this \<mapsto> \<lparr>data_ptr = p, length_fld = length_fld ob\<rparr>),
                              arrays := arrays1(p \<mapsto> stringCopy src (length_fld ob) @ [0])\<rparr>))
         | _ \<Rightarrow> Inl dangling_pointer))"

definition subscript_write :: "memory \<Rightarrow> addr \<Rightarrow> int \<Rightarrow> byte \<Rightarrow> error + memory" where
  "subscript_write mem this i c =
     (case objects mem this of
        None \<Rightarrow> Inl dangling_pointer
      | Some ob \<Rightarrow>
          (case arrays mem (data_ptr ob) of
             None \<Rightarrow> Inl dangling_pointer
           | Some arr \<Rightarrow>
               if 0 \<le> i \<and> i < int (length arr)
               then Inr (mem\<lparr>arrays := (arrays mem)(data_ptr ob \<mapsto> arr[nat i := c])\<rparr>)
               else Inl out_of_bounds))"

text \<open>The string an object stands for: the first \<^verbatim>\<open>length\<close> chars of its array.\<close>

definition value_of :: "memory \<Rightarrow> addr \<Rightarrow> DSString option" where
  "value_of mem this =
     (case objects mem this of
        None \<Rightarrow> None
      | Some ob \<Rightarrow>
          (case arrays mem (data_ptr ob) of
             None \<Rightarrow> None
           | Some arr \<Rightarrow> Some \<lparr>data = take (nat (length_fld ob)) arr\<rparr>))"

text \<open>
  The class invariant for one object: its array is live and has \<^verbatim>\<open>length + 1\<close> chars.
\<close>

definition owns_array :: "memory \<Rightarrow> addr \<Rightarrow> bool" where
  "owns_array mem this =
     (case objects mem this of
        None \<Rightarrow> False
      | Some ob \<Rightarrow>
          (case arrays mem (data_ptr ob) of
             None \<Rightarrow> False
           | Some arr \<Rightarrow> 0 \<le> length_fld ob \<and> int (length arr) = length_fld ob + 1))"

text \<open>
  The memory before any object exists, and the constructor from a C string as an
  operation on the memory: \<^verbatim>\<open>new char[1]\<close> with the terminator for \<^verbatim>\<open>nullptr\<close>, otherwise
  \<^verbatim>\<open>new char[length + 1]\<close> filled by \<^verbatim>\<open>stringCopy\<close>.
\<close>

definition empty_memory :: memory where
  "empty_memory = \<lparr>objects = Map.empty, arrays = Map.empty\<rparr>"

definition cstr_constructor :: "memory \<Rightarrow> addr \<Rightarrow> addr \<Rightarrow> byte list option \<Rightarrow> memory" where
  "cstr_constructor mem this p str =
     (case str of
        None \<Rightarrow>
          mem\<lparr>objects := (objects mem)(this \<mapsto> \<lparr>data_ptr = p, length_fld = 0\<rparr>),
              arrays := (arrays mem)(p \<mapsto> [0])\<rparr>
      | Some cs \<Rightarrow>
          mem\<lparr>objects := (objects mem)(this \<mapsto> \<lparr>data_ptr = p, length_fld = stringLength str\<rparr>),
              arrays := (arrays mem)(p \<mapsto> stringCopy cs (stringLength str) @ [0])\<rparr>)"

text \<open>
  The class invariant for the whole memory: every object owns its array, and no two
  objects hold the same array.
\<close>

definition class_invariant :: "memory \<Rightarrow> bool" where
  "class_invariant mem =
     ((\<forall>a \<in> dom (objects mem). owns_array mem a)
      \<and> (\<forall>a \<in> dom (objects mem). \<forall>b \<in> dom (objects mem).
            a \<noteq> b \<longrightarrow> data_ptr (the (objects mem a)) \<noteq> data_ptr (the (objects mem b))))"

text \<open>
  What a copy operation has to achieve. \<open>r\<close> is the result of the operation in the memory
  \<open>mem\<close>, \<open>copy\<close> the object it has written and \<open>orig\<close> the object it has copied. The operation
  returns a memory in which the invariant holds and \<open>orig\<close> stands for the string it stood
  for; the two objects are equal by \<^verbatim>\<open>operator==\<close>; a write through \<^verbatim>\<open>operator[]\<close> into either
  leaves the string of the other as it is; and a write at a position of the string is
  defined for both.
\<close>

definition independent_copy :: "memory \<Rightarrow> error + memory \<Rightarrow> addr \<Rightarrow> addr \<Rightarrow> bool" where
  "independent_copy mem r copy orig =
     (\<exists>mem'. r = Inr mem' \<and> class_invariant mem'
        \<and> value_of mem' orig = value_of mem orig
        \<and> (\<exists>a b. value_of mem' copy = Some a \<and> value_of mem' orig = Some b \<and> operator_eq a b)
        \<and> (\<forall>i c mem''. subscript_write mem' copy i c = Inr mem''
              \<longrightarrow> value_of mem'' orig = value_of mem' orig)
        \<and> (\<forall>i c mem''. subscript_write mem' orig i c = Inr mem''
              \<longrightarrow> value_of mem'' copy = value_of mem' copy)
        \<and> (\<forall>i c x. x \<in> {copy, orig} \<and> 0 \<le> i \<and> i < length_fld (the (objects mem' x))
              \<longrightarrow> (\<exists>mem''. subscript_write mem' x i c = Inr mem'')))"

section \<open>The parser and the tokenizer as their description words them\<close>

text \<open>
  The description of the CSV parser, on bytes: a double quote toggles the flag and is
  dropped; a comma outside a quoted region ends the current field; every other byte goes
  to the end of the current field; at the end of the line the current field is emitted.
\<close>

fun described_fields :: "byte list \<Rightarrow> bool \<Rightarrow> byte list \<Rightarrow> byte list list" where
  "described_fields [] inQuotes current = [current]"
| "described_fields (c # cs) inQuotes current =
     (if c = 34 then described_fields cs (\<not> inQuotes) current
      else if c = 44 \<and> \<not> inQuotes then current # described_fields cs inQuotes []
      else described_fields cs inQuotes (current @ [c]))"

text \<open>
  The description of the tokenizer: cut the text at every delimiter byte and keep the
  pieces that are not empty. These are the maximal runs of bytes that are not delimiters,
  in order, the last of them ended by the end of the text.
\<close>

fun split_at :: "('a \<Rightarrow> bool) \<Rightarrow> 'a list \<Rightarrow> 'a list list" where
  "split_at P [] = [[]]"
| "split_at P (c # cs) =
     (if P c then [] # split_at P cs
      else (case split_at P cs of
              [] \<Rightarrow> [[c]]
            | r # rs \<Rightarrow> (c # r) # rs))"

definition described_tokens :: "byte list \<Rightarrow> byte list list" where
  "described_tokens text = filter (\<lambda>r. r \<noteq> []) (split_at isDelimiter text)"

text \<open>A field written between two double quotes, for the example line of the parser.\<close>

definition quoted :: "string \<Rightarrow> byte list" where
  "quoted s = 34 # bytes s @ [34]"


definition counts_of :: "(byte list \<rightharpoonup> int \<times> int) \<Rightarrow> byte list \<Rightarrow> int \<times> int" where
  "counts_of m k = (case m k of None \<Rightarrow> (0, 0) | Some c \<Rightarrow> c)"


text \<open>What \<^verbatim>\<open>tokenizeTweet\<close> returns from the state its loop ends in.\<close>

definition finish_tokens :: "DSString list \<times> DSString \<Rightarrow> DSString list" where
  "finish_tokens p = (if DSString_size (snd p) > 0 then fst p @ [snd p] else fst p)"

section \<open>Basic facts about the helpers\<close>

lemma stringLength_loop_takeWhile:
  "stringLength_loop cs n = n + int (length (takeWhile (\<lambda>c. c \<noteq> 0) cs))"
  by (induction cs arbitrary: n) auto

lemma stringLength_Some:
  "stringLength (Some cs) = int (length (takeWhile (\<lambda>c. c \<noteq> 0) cs))"
  by (simp add: stringLength_def stringLength_loop_takeWhile)

lemma DSString_cstr_data:
  "data (DSString_cstr (Some cs)) = takeWhile (\<lambda>c. c \<noteq> 0) cs"
proof -
  have "take (length (takeWhile (\<lambda>c. c \<noteq> 0) cs)) cs = takeWhile (\<lambda>c. c \<noteq> 0) cs"
    by (metis takeWhile_eq_take)
  then show ?thesis
    by (simp add: DSString_cstr_def stringCopy_def stringLength_Some)
qed

lemma DSString_cstr_no_nul: "no_nul (DSString_cstr str)"
proof (cases str)
  case None
  then show ?thesis by (simp add: no_nul_def DSString_cstr_def)
next
  case (Some cs)
  have "0 \<notin> set (takeWhile (\<lambda>c. c \<noteq> 0) cs)"
    by (auto dest: set_takeWhileD)
  with Some show ?thesis by (simp add: no_nul_def DSString_cstr_data)
qed

lemma chars_equal_iff: "length xs = length ys \<Longrightarrow> chars_equal xs ys \<longleftrightarrow> xs = ys"
  by (induction xs ys rule: chars_equal.induct) auto

lemma operator_eq_iff: "operator_eq a b \<longleftrightarrow> data a = data b"
  by (auto simp: operator_eq_def DSString_size_def chars_equal_iff)

lemma char_value_zero: "char_value sc 0 = 0"
  by (simp add: char_value_def)

lemma char_value_inj: "char_value sc x = char_value sc y \<longleftrightarrow> x = y"
proof (cases sc)
  case True
  then show ?thesis
    using word_eq_iff_signed [where ?'a = int, of x y] by (auto simp: char_value_def)
next
  case False
  then show ?thesis
    by (auto simp: char_value_def word_uint_eq_iff)
qed

lemma char_value_eq_zero: "char_value sc x = 0 \<longleftrightarrow> x = 0"
  using char_value_inj [of sc x 0] by (simp add: char_value_zero)

lemma stringCompare_loop_zero_iff:
  "0 \<notin> set xs \<Longrightarrow> 0 \<notin> set ys \<Longrightarrow> stringCompare_loop sc xs ys = 0 \<longleftrightarrow> xs = ys"
  by (induction sc xs ys rule: stringCompare_loop.induct)
    (auto simp: char_at_def char_value_zero char_value_eq_zero char_value_inj split: list.splits)

lemma stringCompare_loop_swap:
  "stringCompare_loop sc ys xs = - stringCompare_loop sc xs ys"
  by (induction sc xs ys rule: stringCompare_loop.induct)
    (auto simp: char_at_def split: list.splits)

lemma stringCompare_zero_iff_map_key:
  "stringCompare sc (c_str a) (c_str b) = 0 \<longleftrightarrow> map_key a = map_key b"
proof -
  have "stringCompare_loop sc xs ys = 0
          \<longleftrightarrow> takeWhile (\<lambda>c. c \<noteq> 0) xs = takeWhile (\<lambda>c. c \<noteq> 0) ys" for xs ys
    by (induction sc xs ys rule: stringCompare_loop.induct)
      (auto simp: char_at_def char_value_zero char_value_eq_zero char_value_inj
            split: list.splits)
  then show ?thesis
    by (simp add: stringCompare_def c_str_def map_key_def)
qed

lemma map_key_no_nul: "no_nul s \<Longrightarrow> map_key s = data s"
  by (simp add: map_key_def no_nul_def takeWhile_eq_all_conv) metis

lemma stringCompare_loop_lexord:
  "\<forall>c \<in> set xs \<union> set ys. 0 < char_value sc c \<Longrightarrow>
     stringCompare_loop sc xs ys < 0
       \<longleftrightarrow> (xs, ys) \<in> lexord {(x, y). char_value sc x < char_value sc y}"
proof (induction sc xs ys rule: stringCompare_loop.induct)
  case (1 sc x xs y ys)
  from "1.prems" have nz: "x \<noteq> 0" "y \<noteq> 0"
    by (auto simp: char_value_zero)
  show ?case
  proof (cases "x = y")
    case True
    with "1.IH" "1.prems" nz show ?thesis by simp
  next
    case False
    with nz show ?thesis by (simp add: char_value_inj)
  qed
qed (auto simp: char_at_def char_value_zero split: list.splits)

section \<open>Ordering and equality of strings\<close>

text \<open>
  Claim C4, as amended. For all strings \<open>a\<close> and \<open>b\<close> that hold no zero byte among their
  chars, exactly one of \<^verbatim>\<open>a == b\<close>, \<^verbatim>\<open>a < b\<close>, \<^verbatim>\<open>a > b\<close> holds, whether \<^verbatim>\<open>char\<close> is signed
  or not.
\<close>

theorem trichotomy_no_nul:
  assumes "no_nul a" and "no_nul b"
  shows "(operator_eq a b \<and> \<not> operator_less sc a b \<and> \<not> operator_greater sc a b)
       \<or> (\<not> operator_eq a b \<and> operator_less sc a b \<and> \<not> operator_greater sc a b)
       \<or> (\<not> operator_eq a b \<and> \<not> operator_less sc a b \<and> operator_greater sc a b)"
proof -
  have "stringCompare sc (c_str a) (c_str b) = 0 \<longleftrightarrow> data a = data b"
    using assms by (simp add: stringCompare_zero_iff_map_key map_key_no_nul)
  then show ?thesis
    by (auto simp: operator_eq_iff operator_less_def operator_greater_def)
qed

theorem trichotomy_no_nul_witness:
  "no_nul (DSString_cstr (Some (bytes ''apple'')))
   \<and> no_nul (DSString_cstr (Some (bytes ''banana'')))
   \<and> \<not> operator_eq (DSString_cstr (Some (bytes ''apple''))) (DSString_cstr (Some (bytes ''banana'')))
   \<and> operator_less True (DSString_cstr (Some (bytes ''apple''))) (DSString_cstr (Some (bytes ''banana'')))
   \<and> \<not> operator_greater True (DSString_cstr (Some (bytes ''apple''))) (DSString_cstr (Some (bytes ''banana'')))"
  using trichotomy_no_nul [of "DSString_cstr (Some (bytes ''apple''))"
      "DSString_cstr (Some (bytes ''banana''))" True]
  by (simp add: DSString_cstr_no_nul operator_eq_iff DSString_cstr_data bytes_def
      operator_less_def operator_greater_def stringCompare_def c_str_def char_value_def)

text \<open>
  Claim C4 as stated fails. Writing the terminator value into the middle of \<^verbatim>\<open>"axb"\<close>
  through \<^verbatim>\<open>operator[]\<close> gives a string of length 3 that is neither equal to \<^verbatim>\<open>"a"\<close>
  (the lengths differ) nor less nor greater (the comparison stops at the zero byte).
\<close>

theorem trichotomy_counterexample:
  "operator_index_write (DSString_cstr (Some (bytes ''axb''))) 1 0 = Inr \<lparr>data = [97, 0, 98]\<rparr>
   \<and> \<not> operator_eq \<lparr>data = [97, 0, 98]\<rparr> \<lparr>data = [97]\<rparr>
   \<and> \<not> operator_less True \<lparr>data = [97, 0, 98]\<rparr> \<lparr>data = [97]\<rparr>
   \<and> \<not> operator_greater True \<lparr>data = [97, 0, 98]\<rparr> \<lparr>data = [97]\<rparr>
   \<and> \<not> operator_less False \<lparr>data = [97, 0, 98]\<rparr> \<lparr>data = [97]\<rparr>
   \<and> \<not> operator_greater False \<lparr>data = [97, 0, 98]\<rparr> \<lparr>data = [97]\<rparr>"
  by (simp add: operator_index_write_def DSString_size_def DSString_cstr_data bytes_def
      operator_eq_def operator_less_def operator_greater_def stringCompare_def c_str_def
      char_value_def char_at_def)

text \<open>
  Claim C3, as amended. For all strings \<open>a\<close> and \<open>b\<close> whose chars all have a positive
  \<^verbatim>\<open>char\<close> value (every byte but zero where \<^verbatim>\<open>char\<close> is unsigned, the bytes 1 .. 127 where
  it is signed), \<^verbatim>\<open>a < b\<close> and \<^verbatim>\<open>a > b\<close> are the lexicographic comparison of the chars, and
  a proper prefix is less than the longer string, which is greater than the prefix.
\<close>

theorem ordering_lexicographic:
  assumes "\<forall>c \<in> set (data a) \<union> set (data b). 0 < char_value sc c"
  shows "(operator_less sc a b
            \<longleftrightarrow> (data a, data b) \<in> lexord {(x, y). char_value sc x < char_value sc y})
       \<and> (operator_greater sc a b
            \<longleftrightarrow> (data b, data a) \<in> lexord {(x, y). char_value sc x < char_value sc y})
       \<and> (strict_prefix (data a) (data b)
            \<longrightarrow> operator_less sc a b \<and> operator_greater sc b a)"
proof -
  let ?r = "{(x, y). char_value sc x < char_value sc y}"
  have less: "operator_less sc a b \<longleftrightarrow> (data a, data b) \<in> lexord ?r"
    using assms stringCompare_loop_lexord [of "data a" "data b" sc]
    by (simp add: operator_less_def stringCompare_def c_str_def)
  have swap: "\<forall>c \<in> set (data b) \<union> set (data a). 0 < char_value sc c"
    using assms by blast
  have "stringCompare_loop sc (data a) (data b) > 0
          \<longleftrightarrow> stringCompare_loop sc (data b) (data a) < 0"
    using stringCompare_loop_swap [of sc "data a" "data b"] by linarith
  then have greater: "operator_greater sc a b \<longleftrightarrow> (data b, data a) \<in> lexord ?r"
    using stringCompare_loop_lexord [OF swap]
    by (simp add: operator_greater_def stringCompare_def c_str_def)
  have gr_less: "operator_greater sc b a \<longleftrightarrow> operator_less sc a b"
    using stringCompare_loop_swap [of sc "data a" "data b"]
    by (simp add: operator_greater_def operator_less_def stringCompare_def c_str_def)
  have "(data a, data b) \<in> lexord ?r" if "strict_prefix (data a) (data b)"
  proof -
    from that obtain z zs where "data b = data a @ z # zs"
      by (auto elim: strict_prefixE')
    then show ?thesis
      by (simp add: lexord_append_rightI)
  qed
  with less greater gr_less show ?thesis by blast
qed

theorem ordering_lexicographic_witness:
  "strict_prefix (data (DSString_cstr (Some (bytes ''app''))))
        (data (DSString_cstr (Some (bytes ''apple''))))
   \<and> operator_less True (DSString_cstr (Some (bytes ''app''))) (DSString_cstr (Some (bytes ''apple'')))
   \<and> operator_greater True (DSString_cstr (Some (bytes ''apple''))) (DSString_cstr (Some (bytes ''app'')))"
proof -
  have h: "\<forall>c \<in> set (data (DSString_cstr (Some (bytes ''app''))))
          \<union> set (data (DSString_cstr (Some (bytes ''apple'')))). 0 < char_value True c"
    by (simp add: DSString_cstr_data bytes_def char_value_def)
  have p: "strict_prefix (data (DSString_cstr (Some (bytes ''app''))))
        (data (DSString_cstr (Some (bytes ''apple''))))"
    by (simp add: DSString_cstr_data bytes_def strict_prefix_def)
  from ordering_lexicographic [OF h] p show ?thesis by blast
qed

text \<open>
  Claim C3 as stated fails in two ways. With a zero byte written into \<^verbatim>\<open>"axb"\<close>, the
  string \<^verbatim>\<open>"a"\<close> is a proper prefix and is not less, signed \<^verbatim>\<open>char\<close> or not. And where
  \<^verbatim>\<open>char\<close> is signed, \<^verbatim>\<open>"a"\<close> is a proper prefix of \<^verbatim>\<open>"a"\<close> followed by the two bytes of a
  UTF-8 letter (195, 169) and compares greater, since the byte 195 is a negative \<^verbatim>\<open>char\<close>.
\<close>

theorem ordering_prefix_counterexample:
  "operator_index_write (DSString_cstr (Some (bytes ''axb''))) 1 0 = Inr \<lparr>data = [97, 0, 98]\<rparr>
   \<and> strict_prefix (data \<lparr>data = [97]\<rparr>) (data \<lparr>data = [97, 0, 98]\<rparr>)
   \<and> \<not> operator_less True \<lparr>data = [97]\<rparr> \<lparr>data = [97, 0, 98]\<rparr>
   \<and> \<not> operator_less False \<lparr>data = [97]\<rparr> \<lparr>data = [97, 0, 98]\<rparr>
   \<and> DSString_cstr (Some [97, 195, 169]) = \<lparr>data = [97, 195, 169]\<rparr>
   \<and> strict_prefix (data \<lparr>data = [97]\<rparr>) (data \<lparr>data = [97, 195, 169]\<rparr>)
   \<and> \<not> operator_less True \<lparr>data = [97]\<rparr> \<lparr>data = [97, 195, 169]\<rparr>
   \<and> operator_greater True \<lparr>data = [97]\<rparr> \<lparr>data = [97, 195, 169]\<rparr>"
  by (simp add: operator_index_write_def DSString_size_def DSString_cstr_def stringLength_def
      stringCopy_def bytes_def strict_prefix_def
      operator_less_def operator_greater_def stringCompare_def c_str_def
      char_value_def char_at_def)

section \<open>Substring\<close>

lemma int32_id: "- (2 ^ 31) \<le> x \<Longrightarrow> x < 2 ^ 31 \<Longrightarrow> int32 x = x"
  by (simp add: int32_def)

lemma copy_chars_in_range:
  "k + n \<le> length arr \<Longrightarrow> copy_chars arr k n = Inr (take n (drop k arr))"
proof (induction n arbitrary: k)
  case 0
  then show ?case by simp
next
  case (Suc n)
  then have k: "k < length arr" and "Suc k + n \<le> length arr" by simp_all
  then have rest: "copy_chars arr (Suc k) n = Inr (take n (drop (Suc k) arr))"
    using Suc.IH [of "Suc k"] by simp
  have "drop k arr = arr ! k # drop (Suc k) arr"
    using k by (simp add: Cons_nth_drop_Suc)
  with k rest show ?case by simp
qed

text \<open>
  Where the sum \<^verbatim>\<open>start + numChars\<close> stays below \<open>2 ^ 31\<close>, \<^verbatim>\<open>substring\<close> does what the
  class documents: the empty string for a start outside the string or a count that is
  not positive, and otherwise the chars from \<open>start\<close>, cut at the end of the string.
\<close>

lemma substring_without_overflow:
  assumes "DSString_size s < 2 ^ 31 - 1" and "start + numChars < 2 ^ 31"
  shows "substring s start numChars =
           Inr (if start < 0 \<or> start \<ge> DSString_size s \<or> numChars \<le> 0 then DSString_default
                else \<lparr>data = take (nat numChars) (drop (nat start) (data s))\<rparr>)"
proof (cases "start < 0 \<or> start \<ge> DSString_size s \<or> numChars \<le> 0")
  case True
  then show ?thesis by (simp add: substring_def)
next
  case False
  then have range: "0 \<le> start" "start < DSString_size s" "0 < numChars" by simp_all
  define n where "n = (if start + numChars > DSString_size s
                        then DSString_size s - start else numChars)"
  have sum: "int32 (start + numChars) = start + numChars"
    using range assms by (intro int32_id) simp_all
  have n_bounds: "0 < n" "start + n \<le> DSString_size s" "n \<le> numChars"
    using range by (auto simp: n_def)
  have alloc: "int32 (n + 1) = n + 1"
    using n_bounds range assms by (intro int32_id) simp_all
  have "nat start + nat n \<le> length (data s @ [0])"
    using n_bounds range by (simp add: DSString_size_def)
  then have copy: "copy_chars (data s @ [0]) (nat start) (nat n)
                     = Inr (take (nat n) (drop (nat start) (data s @ [0])))"
    by (rule copy_chars_in_range)
  have "nat start + nat n \<le> length (data s)"
    using n_bounds range by (simp add: DSString_size_def)
  then have "take (nat n) (drop (nat start) (data s @ [0]))
               = take (nat n) (drop (nat start) (data s))"
    by simp
  moreover have "take (nat n) (drop (nat start) (data s))
                   = take (nat numChars) (drop (nat start) (data s))"
    using range by (auto simp: n_def DSString_size_def)
  ultimately have "substring s start numChars
                     = Inr \<lparr>data = take (nat numChars) (drop (nat start) (data s))\<rparr>"
    using False sum alloc copy n_bounds
    by (simp add: substring_def n_def [symmetric] Let_def)
  with False show ?thesis by simp
qed

text \<open>
  Claim C2 fails on the code when \<^verbatim>\<open>start + numChars\<close> overflows. For the string \<^verbatim>\<open>"ab"\<close>,
  a start of 1 and a count of \<open>2 ^ 31 - 1\<close>, the sum wraps to a negative number, the
  count is not cut down, and \<^verbatim>\<open>new char[numChars + 1]\<close> is asked for a negative size:
  the call throws instead of returning \<^verbatim>\<open>"b"\<close>.
\<close>

theorem substring_overflow_throws:
  "substring (DSString_cstr (Some (bytes ''ab''))) 1 2147483647 = Inl bad_array_new_length"
  by (simp add: substring_def DSString_size_def DSString_cstr_data bytes_def int32_def)

section \<open>The CSV parser\<close>

lemma DSString_copy_id: "DSString_copy s = s"
  by (simp add: DSString_copy_def stringCopy_def DSString_size_def)

lemma operator_plus_data: "data (operator_plus a b) = data a @ data b"
  by (simp add: operator_plus_def stringCopy_def DSString_size_def map_nth)

lemma DSString_cstr_char_data: "data (DSString_cstr (Some [c])) = (if c = 0 then [] else [c])"
  by (simp add: DSString_cstr_data)

lemma append_char_data:
  "c \<noteq> 0 \<Longrightarrow> data (operator_plus w (DSString_cstr (Some [c]))) = data w @ [c]"
  by (simp add: operator_plus_data DSString_cstr_char_data)

lemma parseCSV_loop_described:
  "0 \<notin> set cs \<Longrightarrow>
   map data (fst (parseCSV_loop cs fs cur q)) @ [data (snd (parseCSV_loop cs fs cur q))]
     = map data fs @ described_fields cs q (data cur)"
proof (induction cs arbitrary: fs cur q)
  case Nil
  then show ?case by simp
next
  case (Cons c cs)
  then have "c \<noteq> 0" and "0 \<notin> set cs" by auto
  with Cons.IH show ?case
    by (simp add: append_char_data DSString_default_def)
qed

lemma parseCSVLine_described:
  "no_nul line \<Longrightarrow> map data (parseCSVLine line flag) = described_fields (data line) False []"
  using parseCSV_loop_described [of "data line" "[]" DSString_default False]
  by (simp add: parseCSVLine_def no_nul_def split_beta DSString_default_def)

lemma described_fields_not_empty: "described_fields cs q cur \<noteq> []"
  by (induction cs arbitrary: q cur) auto

lemma described_fields_no_quote:
  "34 \<notin> set cur \<Longrightarrow> f \<in> set (described_fields cs q cur) \<Longrightarrow> 34 \<notin> set f"
proof (induction cs arbitrary: q cur)
  case Nil
  then show ?case by simp
next
  case (Cons c cs)
  show ?case
  proof (cases "c = 34")
    case True
    with Cons.prems Cons.IH [of cur "\<not> q"] show ?thesis by simp
  next
    case False
    show ?thesis
    proof (cases "c = 44 \<and> \<not> q")
      case True
      with \<open>c \<noteq> 34\<close> Cons.prems Cons.IH [of "[]" q] show ?thesis by auto
    next
      case False
      with \<open>c \<noteq> 34\<close> Cons.prems Cons.IH [of "cur @ [c]" q] show ?thesis by auto
    qed
  qed
qed

lemma parseCSV_loop_no_nul:
  "\<forall>f \<in> set fs. no_nul f \<Longrightarrow> no_nul cur \<Longrightarrow>
   (\<forall>f \<in> set (fst (parseCSV_loop cs fs cur q)). no_nul f)
     \<and> no_nul (snd (parseCSV_loop cs fs cur q))"
proof (induction cs arbitrary: fs cur q)
  case Nil
  then show ?case by simp
next
  case (Cons c cs)
  have plus: "no_nul (operator_plus cur (DSString_cstr (Some [c])))"
    using Cons.prems by (simp add: no_nul_def operator_plus_data DSString_cstr_char_data)
  have empty: "no_nul DSString_default"
    by (simp add: no_nul_def DSString_default_def)
  have more: "\<forall>f \<in> set (fs @ [cur]). no_nul f"
    using Cons.prems by simp
  show ?case
  proof (cases "c = 34")
    case True
    with Cons.IH [OF Cons.prems, of "\<not> q"] show ?thesis by simp
  next
    case False
    show ?thesis
    proof (cases "c = 44 \<and> \<not> q")
      case True
      with \<open>c \<noteq> 34\<close> Cons.IH [OF more empty, of q] show ?thesis by simp
    next
      case False
      with \<open>c \<noteq> 34\<close> Cons.IH [OF Cons.prems(1) plus, of q] show ?thesis by auto
    qed
  qed
qed

lemma parseCSVLine_no_nul: "f \<in> set (parseCSVLine line flag) \<Longrightarrow> no_nul f"
  using parseCSV_loop_no_nul [of "[]" DSString_default "data line" False]
  by (auto simp: parseCSVLine_def split_beta no_nul_def DSString_default_def)

text \<open>
  Claim C5. For every input line (a string built from a C string, so without a zero
  byte), the fields \<^verbatim>\<open>parseCSVLine\<close> returns are the fields of the description: a double
  quote is dropped and toggles the flag, a comma outside a quoted region ends the field,
  every other byte is appended, the last field is always emitted. No field holds a
  double quote, and the list of fields is never empty. The function has no error
  outcome: it returns a list of fields for every line. The line with six quoted fields
  gives six fields without quotes, the last of them \<^verbatim>\<open>I love it\<close>.
\<close>

theorem parseCSVLine_as_described:
  assumes "no_nul line"
  shows "map data (parseCSVLine line flag) = described_fields (data line) False []
       \<and> parseCSVLine line flag \<noteq> []
       \<and> (\<forall>f \<in> set (parseCSVLine line flag). 34 \<notin> set (data f))
       \<and> map data (parseCSVLine
            (DSString_cstr (Some (quoted ''4'' @ [44] @ quoted ''1468'' @ [44] @ quoted ''Mon''
               @ [44] @ quoted ''q'' @ [44] @ quoted ''user'' @ [44] @ quoted ''I love it'')))
            flag)
          = [bytes ''4'', bytes ''1468'', bytes ''Mon'', bytes ''q'', bytes ''user'',
             bytes ''I love it'']"
proof -
  have eq: "map data (parseCSVLine line flag) = described_fields (data line) False []"
    using assms by (rule parseCSVLine_described)
  have ne: "parseCSVLine line flag \<noteq> []"
    using eq described_fields_not_empty [of "data line" False "[]"] by auto
  have nq: "\<forall>f \<in> set (parseCSVLine line flag). 34 \<notin> set (data f)"
  proof
    fix f assume "f \<in> set (parseCSVLine line flag)"
    then have "data f \<in> set (described_fields (data line) False [])"
      using eq by (metis imageI set_map)
    then show "34 \<notin> set (data f)"
      using described_fields_no_quote [of "[]"] by simp
  qed
  have ex: "map data (parseCSVLine
            (DSString_cstr (Some (quoted ''4'' @ [44] @ quoted ''1468'' @ [44] @ quoted ''Mon''
               @ [44] @ quoted ''q'' @ [44] @ quoted ''user'' @ [44] @ quoted ''I love it'')))
            flag)
          = [bytes ''4'', bytes ''1468'', bytes ''Mon'', bytes ''q'', bytes ''user'',
             bytes ''I love it'']"
    by (simp add: parseCSVLine_described DSString_cstr_no_nul DSString_cstr_data
        quoted_def bytes_def)
  from eq ne nq ex show ?thesis by blast
qed

theorem parseCSVLine_as_described_witness:
  "no_nul (DSString_cstr (Some (bytes ''a,b'')))
   \<and> map data (parseCSVLine (DSString_cstr (Some (bytes ''a,b''))) True) = [[97], [98]]"
  using parseCSVLine_as_described [of "DSString_cstr (Some (bytes ''a,b''))" True]
  by (simp add: DSString_cstr_no_nul DSString_cstr_data bytes_def)

section \<open>The CSV parser ignores its flag\<close>

text \<open>
  Claim C10. For every input line, \<^verbatim>\<open>parseCSVLine(line, true)\<close> and
  \<^verbatim>\<open>parseCSVLine(line, false)\<close> return the same list of fields: the parser takes the flag
  \<^verbatim>\<open>hasSentiment\<close> and never reads it.
\<close>

theorem parseCSVLine_flag_independent:
  "parseCSVLine line True = parseCSVLine line False"
  by (simp add: parseCSVLine_def)

section \<open>The tokenizer\<close>

lemma is_upper_char_value:
  "is_upper c \<longleftrightarrow> 65 \<le> char_value sc c \<and> char_value sc c \<le> 90"
proof (cases sc)
  case False
  then show ?thesis
    by (simp add: is_upper_def char_value_def word_le_def)
next
  case True
  have u: "uint c = sint c mod 256"
    using uint_sint [of c] by (simp add: take_bit_eq_mod)
  have b: "- 128 \<le> sint c" "sint c < 128"
    using sint_ge [of c] sint_lt [of c] by simp_all
  have "is_upper c \<longleftrightarrow> 65 \<le> uint c \<and> uint c \<le> 90"
    by (simp add: is_upper_def word_le_def)
  also have "\<dots> \<longleftrightarrow> 65 \<le> sint c \<and> sint c \<le> 90"
  proof (cases "sint c < 0")
    case True
    with b have "(sint c + 256) mod 256 = sint c + 256"
      by (intro mod_pos_pos_trivial) simp_all
    then have "uint c = sint c + 256"
      using u by simp
    with True b show ?thesis by simp
  next
    case False
    with b have "sint c mod 256 = sint c"
      by (intro mod_pos_pos_trivial) simp_all
    with u show ?thesis by simp
  qed
  finally show ?thesis
    using True by (simp add: char_value_def)
qed

lemma upper_plus_32: "is_upper c \<Longrightarrow> c + 32 \<noteq> 0"
proof
  assume up: "is_upper c" and "c + 32 = 0"
  then have "c + 32 - 32 = 0 - 32" by simp
  then have "c = 224" by simp
  with up show False by (simp add: is_upper_def)
qed

lemma toLowerCase_no_nul: "no_nul s \<Longrightarrow> no_nul (toLowerCase s)"
proof -
  assume nn: "no_nul s"
  define f :: "byte \<Rightarrow> byte" where "f = (\<lambda>c. if is_upper c then c + 32 else c)"
  have nz: "f c \<noteq> 0" if "c \<in> set (data s)" for c
  proof (cases "is_upper c")
    case True
    then have fc: "f c = c + 32" by (simp only: f_def if_True)
    show ?thesis unfolding fc by (rule upper_plus_32 [OF True])
  next
    case False
    then have fc: "f c = c" by (simp only: f_def if_False)
    have "c \<noteq> 0" using that nn unfolding no_nul_def by blast
    then show ?thesis unfolding fc .
  qed
  have img: "0 \<notin> f ` set (data s)"
  proof
    assume "0 \<in> f ` set (data s)"
    then obtain c where "0 = f c" and "c \<in> set (data s)"
      by (rule imageE)
    from nz [OF this(2)] this(1) [symmetric] show False
      by (rule notE)
  qed
  have d: "data (toLowerCase s) = map f (data s)"
    by (simp only: toLowerCase_def f_def DSString.simps)
  show ?thesis
    unfolding no_nul_def d set_map by (rule img)
qed

lemma delimiters_chars:
  "delimiters = bytes '' ,.!?;:'' @ [34, 39] @ bytes ''()[]{}@#$%^&*-_=+<>/'' @ [92] @ bytes ''|~`''"
  by (simp add: delimiters_def bytes_def)

lemma isDelimiter_not_upper: "isDelimiter c \<Longrightarrow> \<not> is_upper c"
  by (auto simp: isDelimiter_def delimiters_def is_upper_def split: if_splits)

lemma split_at_not_empty: "split_at P cs \<noteq> []"
  by (induction cs) (auto split: list.splits)

lemma split_at_none: "\<forall>c \<in> set xs. \<not> P c \<Longrightarrow> split_at P xs = [xs]"
  by (induction xs) auto

lemma split_at_all: "\<forall>c \<in> set xs. P c \<Longrightarrow> filter (\<lambda>r. r \<noteq> []) (split_at P xs) = []"
  by (induction xs) auto

lemma split_at_append:
  "\<forall>c \<in> set xs. \<not> P c \<Longrightarrow> P d \<Longrightarrow> split_at P (xs @ d # ys) = xs # split_at P ys"
  by (induction xs) auto

lemma split_at_pieces: "r \<in> set (split_at P cs) \<Longrightarrow> c \<in> set r \<Longrightarrow> \<not> P c"
proof (induction cs arbitrary: r)
  case Nil
  then show ?case by simp
next
  case (Cons x cs)
  show ?case
  proof (cases "P x")
    case True
    with Cons show ?thesis by auto
  next
    case False
    obtain p ps where ps: "split_at P cs = p # ps"
      using split_at_not_empty [of P cs] by (cases "split_at P cs") auto
    with False Cons.prems have "r = x # p \<or> r \<in> set ps" by simp
    then show ?thesis
    proof
      assume "r = x # p"
      with Cons.prems(2) have "c = x \<or> c \<in> set p" by simp
      with False Cons.IH [of p] ps show ?thesis by auto
    next
      assume "r \<in> set ps"
      with Cons.IH [of r] Cons.prems(2) ps show ?thesis by simp
    qed
  qed
qed

lemma tokenize_loop_described:
  "0 \<notin> set cs \<Longrightarrow> \<forall>c \<in> set (data cur). \<not> isDelimiter c \<Longrightarrow>
   map data (finish_tokens (tokenize_loop cs toks cur))
     = map data toks @ filter (\<lambda>r. r \<noteq> []) (split_at isDelimiter (data cur @ cs))"
proof (induction cs arbitrary: toks cur)
  case Nil
  then show ?case
    by (simp add: finish_tokens_def split_at_none DSString_size_def)
next
  case (Cons c cs)
  then have nz: "c \<noteq> 0" "0 \<notin> set cs" by auto
  show ?case
  proof (cases "isDelimiter c")
    case True
    have split: "split_at isDelimiter (data cur @ c # cs) = data cur # split_at isDelimiter cs"
      using Cons.prems(2) True by (rule split_at_append)
    have empty: "\<forall>c \<in> set (data DSString_default). \<not> isDelimiter c"
      by (simp add: DSString_default_def)
    show ?thesis
    proof (cases "DSString_size cur > 0")
      case True
      with \<open>isDelimiter c\<close> split Cons.IH [OF nz(2) empty, of "toks @ [cur]"] show ?thesis
        by (simp add: DSString_size_def DSString_default_def)
    next
      case False
      with \<open>isDelimiter c\<close> split Cons.IH [OF nz(2) Cons.prems(2), of toks] show ?thesis
        by (simp add: DSString_size_def)
    qed
  next
    case False
    have "\<forall>x \<in> set (data (operator_plus cur (DSString_cstr (Some [c])))). \<not> isDelimiter x"
      using False Cons.prems(2) nz by (simp add: append_char_data)
    from Cons.IH [OF nz(2) this, of toks] False nz show ?thesis
      by (simp add: append_char_data)
  qed
qed

lemma tokenizeTweet_described:
  "no_nul text \<Longrightarrow> map data (tokenizeTweet text) = described_tokens (data (toLowerCase text))"
proof -
  assume "no_nul text"
  then have "0 \<notin> set (data (toLowerCase text))"
    using toLowerCase_no_nul by (simp add: no_nul_def)
  from tokenize_loop_described [OF this, of DSString_default "[]"]
  show ?thesis
    by (simp add: tokenizeTweet_def described_tokens_def finish_tokens_def split_beta
        DSString_default_def Let_def)
qed

lemma toLowerCase_delimiters:
  "\<forall>c \<in> set (data text). isDelimiter c \<Longrightarrow> data (toLowerCase text) = data text"
proof -
  assume all: "\<forall>c \<in> set (data text). isDelimiter c"
  have "map (\<lambda>c. if is_upper c then c + 32 else c) (data text) = map (\<lambda>c. c) (data text)"
  proof (rule map_cong [OF refl])
    fix c assume "c \<in> set (data text)"
    with all have "isDelimiter c" by (rule bspec)
    then have "\<not> is_upper c" by (rule isDelimiter_not_upper)
    then show "(if is_upper c then c + 32 else c) = c" by (simp only: if_False)
  qed
  then show ?thesis
    by (simp only: toLowerCase_def DSString.simps map_ident)
qed

text \<open>
  Claim C6. For every text field (a field of a parsed line, so without a zero byte),
  \<^verbatim>\<open>tokenizeTweet\<close> returns the pieces of the lowercased text between delimiter bytes
  that are not empty, in order: each maximal run of bytes that are not delimiters is one
  token, also the run that the end of the text ends. No token is empty and no token
  holds a delimiter. A text of delimiters only gives no token, and \<^verbatim>\<open>"Hello, World!!"\<close>
  gives \<^verbatim>\<open>hello\<close> and \<^verbatim>\<open>world\<close>.
\<close>

theorem tokenizeTweet_as_described:
  assumes "no_nul text"
  shows "map data (tokenizeTweet text) = described_tokens (data (toLowerCase text))
       \<and> (\<forall>t \<in> set (tokenizeTweet text).
             0 < DSString_size t \<and> (\<forall>c \<in> set (data t). \<not> isDelimiter c))
       \<and> ((\<forall>c \<in> set (data text). isDelimiter c) \<longrightarrow> tokenizeTweet text = [])
       \<and> map data (tokenizeTweet (DSString_cstr (Some (bytes ''Hello, World!!''))))
           = [bytes ''hello'', bytes ''world'']"
proof -
  have eq: "map data (tokenizeTweet text) = described_tokens (data (toLowerCase text))"
    using assms by (rule tokenizeTweet_described)
  have pieces: "0 < DSString_size t \<and> (\<forall>c \<in> set (data t). \<not> isDelimiter c)"
    if "t \<in> set (tokenizeTweet text)" for t
  proof -
    from that have "data t \<in> set (map data (tokenizeTweet text))"
      by (simp only: set_map) (rule imageI)
    then have "data t \<in> set (described_tokens (data (toLowerCase text)))"
      by (simp only: eq)
    then have ne: "data t \<noteq> []"
      and piece: "data t \<in> set (split_at isDelimiter (data (toLowerCase text)))"
      by (simp_all add: described_tokens_def)
    from ne have "0 < DSString_size t"
      by (simp add: DSString_size_def)
    moreover have "\<forall>c \<in> set (data t). \<not> isDelimiter c"
      using split_at_pieces [OF piece] by blast
    ultimately show ?thesis by (rule conjI)
  qed
  have none: "tokenizeTweet text = []" if all: "\<forall>c \<in> set (data text). isDelimiter c"
  proof -
    have "described_tokens (data (toLowerCase text)) = []"
      using split_at_all [of "data text" isDelimiter] all
      by (simp only: toLowerCase_delimiters [OF all] described_tokens_def)
    with eq show ?thesis by simp
  qed
  have ex: "map data (tokenizeTweet (DSString_cstr (Some (bytes ''Hello, World!!''))))
           = [bytes ''hello'', bytes ''world'']"
    by (simp add: tokenizeTweet_described DSString_cstr_no_nul described_tokens_def
        toLowerCase_def DSString_cstr_data bytes_def is_upper_def
        isDelimiter_def delimiters_def)
  from eq pieces none ex show ?thesis by blast
qed

theorem tokenizeTweet_as_described_witness:
  "no_nul (DSString_cstr (Some [32, 44, 33]))
   \<and> tokenizeTweet (DSString_cstr (Some [32, 44, 33])) = []
   \<and> map data (tokenizeTweet (DSString_cstr (Some (bytes ''Hello, World!!''))))
       = [bytes ''hello'', bytes ''world'']"
proof -
  have h: "no_nul (DSString_cstr (Some [32, 44, 33]))"
    by (rule DSString_cstr_no_nul)
  have d: "\<forall>c \<in> set (data (DSString_cstr (Some [32, 44, 33]))). isDelimiter c"
    by (simp add: DSString_cstr_data isDelimiter_def delimiters_def)
  from tokenizeTweet_as_described [OF h] h d show ?thesis by blast
qed

section \<open>Scoring and prediction\<close>

lemma DSString_of_data: "\<lparr>data = data s\<rparr> = (s :: DSString)"
  by simp

lemma map_data_eq: "map data xs = ys \<Longrightarrow> xs = map (\<lambda>d. \<lparr>data = d\<rparr>) ys" for xs :: "DSString list"
  by (induction xs arbitrary: ys) auto

lemma parseCSVLine_cstr:
  "parseCSVLine (DSString_cstr (Some line)) flag
     = map (\<lambda>d. \<lparr>data = d\<rparr>) (described_fields (takeWhile (\<lambda>c. c \<noteq> 0) line) False [])"
  using parseCSVLine_described [OF DSString_cstr_no_nul, of "Some line" flag]
  by (simp only: map_data_eq DSString_cstr_data)

lemma tokenizeTweet_no_nul:
  "no_nul text \<Longrightarrow>
   tokenizeTweet text = map (\<lambda>d. \<lparr>data = d\<rparr>) (described_tokens (data (toLowerCase text)))"
  by (rule map_data_eq) (rule tokenizeTweet_described)

lemma int32_add_left: "int32 (int32 a + b) = int32 (a + b)"
proof -
  have "(int32 a + b + 2 ^ 31) mod 2 ^ 32 = (a + b + 2 ^ 31) mod 2 ^ 32"
  proof -
    have "int32 a + b + 2 ^ 31 = (a + 2 ^ 31) mod 2 ^ 32 + b"
      by (simp add: int32_def)
    also have "\<dots> mod 2 ^ 32 = (a + 2 ^ 31 + b) mod 2 ^ 32"
      by (rule mod_add_left_eq)
    finally show ?thesis by (simp add: ac_simps)
  qed
  then show ?thesis by (simp only: int32_def)
qed

lemma int32_add_right: "int32 (a + int32 b) = int32 (a + b)"
  using int32_add_left [of b a] by (simp only: add.commute)

lemma score_loop_sum:
  "score_loop m tokens (int32 s) =
     int32 (s + sum_list (map (\<lambda>t. case m (map_key t) of None \<Rightarrow> 0 | Some (p, n) \<Rightarrow> p - n) tokens))"
proof (induction tokens arbitrary: s)
  case Nil
  then show ?case by simp
next
  case (Cons t rest)
  show ?case
  proof (cases "m (map_key t)")
    case None
    with Cons.IH [of s] show ?thesis by simp
  next
    case (Some counts)
    obtain p n where counts: "counts = (p, n)" by (cases counts)
    have "int32 (int32 s + int32 (p - n)) = int32 (s + (p - n))"
      by (simp only: int32_add_left int32_add_right)
    with Some counts Cons.IH [of "s + (p - n)"] show ?thesis
      by (simp add: add.assoc)
  qed
qed

lemma calculateSentimentScore_sum:
  "calculateSentimentScore st tokens =
     int32 (sum_list (map (\<lambda>t. case wordSentimentCounts st (map_key t) of
                               None \<Rightarrow> 0 | Some (p, n) \<Rightarrow> p - n) tokens))"
proof -
  have zero: "int32 0 = 0" by (simp add: int32_def)
  show ?thesis
    using score_loop_sum [of "wordSentimentCounts st" tokens 0]
    by (simp only: calculateSentimentScore_def zero add_0)
qed

text \<open>
  Claim C1, as amended. For every state of the classifier and every list of tokens,
  \<^verbatim>\<open>calculateSentimentScore\<close> returns the sum over the tokens of the positive count minus
  the negative count of the token's entry, a token without entry adding 0, reduced to a
  32-bit \<^verbatim>\<open>int\<close> by wrap-around; it returns the sum itself whenever the sum lies between
  \<open>- 2 ^ 31\<close> and \<open>2 ^ 31 - 1\<close>. For a test record with at least five fields, \<^verbatim>\<open>predict\<close> stores
  under the record's identifier, and writes as the record's line, the label 4 when the
  returned score of the text's tokens is greater than 0 and the label 0 otherwise, so also
  for the score 0.
\<close>

theorem score_and_label:
  assumes "5 \<le> length (parseCSVLine (DSString_cstr (Some line)) False)"
  shows "calculateSentimentScore st tokens
           = int32 (sum_list (map (\<lambda>t. case wordSentimentCounts st (map_key t) of
                                          None \<Rightarrow> 0 | Some (p, n) \<Rightarrow> p - n) tokens))
       \<and> (- (2 ^ 31) \<le> sum_list (map (\<lambda>t. case wordSentimentCounts st (map_key t) of
                                             None \<Rightarrow> 0 | Some (p, n) \<Rightarrow> p - n) tokens)
            \<and> sum_list (map (\<lambda>t. case wordSentimentCounts st (map_key t) of
                                    None \<Rightarrow> 0 | Some (p, n) \<Rightarrow> p - n) tokens) < 2 ^ 31
          \<longrightarrow> calculateSentimentScore st tokens
                = sum_list (map (\<lambda>t. case wordSentimentCounts st (map_key t) of
                                        None \<Rightarrow> 0 | Some (p, n) \<Rightarrow> p - n) tokens))
       \<and> (let fields' = parseCSVLine (DSString_cstr (Some line)) False;
               score = calculateSentimentScore st (tokenizeTweet (fields' ! 4));
               label = (if score > 0 then 4 else 0)
           in predictions (fst (predict_line (st, outFile) line)) (map_key (fields' ! 0))
                = Some label
            \<and> snd (predict_line (st, outFile) line) = outFile @ [(label, fields' ! 0)])"
proof -
  let ?sum = "sum_list (map (\<lambda>t. case wordSentimentCounts st (map_key t) of
                                   None \<Rightarrow> 0 | Some (p, n) \<Rightarrow> p - n) tokens)"
  have wrapped: "calculateSentimentScore st tokens = int32 ?sum"
    by (rule calculateSentimentScore_sum)
  have exact: "calculateSentimentScore st tokens = ?sum"
    if "- (2 ^ 31) \<le> ?sum \<and> ?sum < 2 ^ 31"
    using that by (simp only: wrapped int32_id)
  have "\<not> length (parseCSVLine (DSString_cstr (Some line)) False) < 5"
    using assms by simp
  then have label: "let fields' = parseCSVLine (DSString_cstr (Some line)) False;
               score = calculateSentimentScore st (tokenizeTweet (fields' ! 4));
               label = (if score > 0 then 4 else 0)
           in predictions (fst (predict_line (st, outFile) line)) (map_key (fields' ! 0))
                = Some label
            \<and> snd (predict_line (st, outFile) line) = outFile @ [(label, fields' ! 0)]"
    by (simp add: predict_line_def Let_def DSString_copy_id)
  from wrapped exact label show ?thesis by blast
qed

theorem score_and_label_witness:
  "calculateSentimentScore
      (SentimentClassifier_init\<lparr>wordSentimentCounts := [bytes ''good'' \<mapsto> (2, 0)]\<rparr>)
      [\<lparr>data = bytes ''good''\<rparr>, \<lparr>data = bytes ''unseen''\<rparr>] = 2
   \<and> snd (predict_line
        (SentimentClassifier_init\<lparr>wordSentimentCounts := [bytes ''good'' \<mapsto> (2, 0)]\<rparr>, [])
        (bytes ''id1,d,q,u,so Good''))
      = [(4, \<lparr>data = bytes ''id1''\<rparr>)]
   \<and> snd (predict_line (SentimentClassifier_init, []) (bytes ''id1,d,q,u,so Good''))
      = [(0, \<lparr>data = bytes ''id1''\<rparr>)]"
proof -
  let ?st = "SentimentClassifier_init\<lparr>wordSentimentCounts := [bytes ''good'' \<mapsto> (2, 0)]\<rparr>"
  have f: "parseCSVLine (DSString_cstr (Some (bytes ''id1,d,q,u,so Good''))) False
             = [\<lparr>data = bytes ''id1''\<rparr>, \<lparr>data = bytes ''d''\<rparr>, \<lparr>data = bytes ''q''\<rparr>,
                \<lparr>data = bytes ''u''\<rparr>, \<lparr>data = bytes ''so Good''\<rparr>]"
    by (simp add: parseCSVLine_cstr bytes_def)
  have t: "tokenizeTweet \<lparr>data = bytes ''so Good''\<rparr>
             = [\<lparr>data = bytes ''so''\<rparr>, \<lparr>data = bytes ''good''\<rparr>]"
    by (simp add: tokenizeTweet_no_nul no_nul_def described_tokens_def toLowerCase_def
        bytes_def is_upper_def isDelimiter_def delimiters_def)
  have h: "5 \<le> length (parseCSVLine (DSString_cstr (Some (bytes ''id1,d,q,u,so Good''))) False)"
    by (simp only: f) simp
  have k: "map_key \<lparr>data = bytes ''so''\<rparr> = bytes ''so''"
    "map_key \<lparr>data = bytes ''good''\<rparr> = bytes ''good''"
    "map_key \<lparr>data = bytes ''unseen''\<rparr> = bytes ''unseen''"
    by (simp_all add: map_key_def bytes_def)
  have ne: "bytes ''so'' \<noteq> bytes ''good''" "bytes ''unseen'' \<noteq> bytes ''good''"
    by (simp_all add: bytes_def)
  have s1: "calculateSentimentScore ?st [\<lparr>data = bytes ''good''\<rparr>, \<lparr>data = bytes ''unseen''\<rparr>] = 2"
    "calculateSentimentScore ?st [\<lparr>data = bytes ''so''\<rparr>, \<lparr>data = bytes ''good''\<rparr>] = 2"
    "calculateSentimentScore SentimentClassifier_init
       [\<lparr>data = bytes ''so''\<rparr>, \<lparr>data = bytes ''good''\<rparr>] = 0"
    by (simp_all add: calculateSentimentScore_def k ne SentimentClassifier_init_def int32_def)
  show ?thesis
    using score_and_label [OF h, of ?st "[\<lparr>data = bytes ''good''\<rparr>, \<lparr>data = bytes ''unseen''\<rparr>]" "[]"]
      score_and_label [OF h, of SentimentClassifier_init "[]" "[]"]
    by (simp add: f t s1 Let_def)
qed

text \<open>
  Claim C1 as stated fails where the sum does not fit a 32-bit \<^verbatim>\<open>int\<close>. With the counts
  \<open>(2147483647, 0)\<close> for \<^verbatim>\<open>good\<close> and the two tokens \<^verbatim>\<open>good good\<close>, the sum of the two
  differences is 4294967294, the score returned is \<open>- 2\<close>, and \<^verbatim>\<open>predict\<close> writes the label 0
  for a text whose sum is greater than 0.
\<close>

theorem score_overflow_counterexample:
  "counts_of [bytes ''good'' \<mapsto> (2147483647, 0)] (map_key \<lparr>data = bytes ''good''\<rparr>)
     = (2147483647, 0)
   \<and> (2147483647 - 0) + (2147483647 - 0) = (4294967294 :: int)
   \<and> calculateSentimentScore
        (SentimentClassifier_init\<lparr>wordSentimentCounts := [bytes ''good'' \<mapsto> (2147483647, 0)]\<rparr>)
        [\<lparr>data = bytes ''good''\<rparr>, \<lparr>data = bytes ''good''\<rparr>] = - 2
   \<and> snd (predict_line
        (SentimentClassifier_init\<lparr>wordSentimentCounts := [bytes ''good'' \<mapsto> (2147483647, 0)]\<rparr>, [])
        (bytes ''id1,d,q,u,good good''))
      = [(0, \<lparr>data = bytes ''id1''\<rparr>)]"
proof -
  let ?st = "SentimentClassifier_init\<lparr>wordSentimentCounts := [bytes ''good'' \<mapsto> (2147483647, 0)]\<rparr>"
  have f: "parseCSVLine (DSString_cstr (Some (bytes ''id1,d,q,u,good good''))) False
             = [\<lparr>data = bytes ''id1''\<rparr>, \<lparr>data = bytes ''d''\<rparr>, \<lparr>data = bytes ''q''\<rparr>,
                \<lparr>data = bytes ''u''\<rparr>, \<lparr>data = bytes ''good good''\<rparr>]"
    by (simp add: parseCSVLine_cstr bytes_def)
  have t: "tokenizeTweet \<lparr>data = bytes ''good good''\<rparr>
             = [\<lparr>data = bytes ''good''\<rparr>, \<lparr>data = bytes ''good''\<rparr>]"
    by (simp add: tokenizeTweet_no_nul no_nul_def described_tokens_def toLowerCase_def
        bytes_def is_upper_def isDelimiter_def delimiters_def)
  have k: "map_key \<lparr>data = bytes ''good''\<rparr> = bytes ''good''"
    by (simp add: map_key_def bytes_def)
  have sum: "counts_of [bytes ''good'' \<mapsto> (2147483647, 0)] (map_key \<lparr>data = bytes ''good''\<rparr>)
     = (2147483647, 0)"
    "(2147483647 - 0) + (2147483647 - 0) = (4294967294 :: int)"
    by (simp_all add: k counts_of_def)
  have score: "calculateSentimentScore ?st [\<lparr>data = bytes ''good''\<rparr>, \<lparr>data = bytes ''good''\<rparr>] = - 2"
    by (simp add: calculateSentimentScore_def k int32_def)
  have line: "snd (predict_line (?st, []) (bytes ''id1,d,q,u,good good''))
      = [(0, \<lparr>data = bytes ''id1''\<rparr>)]"
    by (simp add: predict_line_def Let_def DSString_copy_id f t score)
  from sum score line show ?thesis by blast
qed

section \<open>Training\<close>




section \<open>Evaluation\<close>




section \<open>Copies own their arrays\<close>

lemma owns_arrayE:
  assumes "owns_array mem a"
  obtains ob arr where "objects mem a = Some ob" and "arrays mem (data_ptr ob) = Some arr"
    and "0 \<le> length_fld ob" and "int (length arr) = length_fld ob + 1"
  using assms by (auto simp: owns_array_def split: option.splits)

lemma owns_arrayI:
  "objects mem a = Some ob \<Longrightarrow> arrays mem (data_ptr ob) = Some arr \<Longrightarrow> 0 \<le> length_fld ob \<Longrightarrow>
   int (length arr) = length_fld ob + 1 \<Longrightarrow> owns_array mem a"
  by (simp add: owns_array_def)

lemma class_invariant_owns:
  "class_invariant mem \<Longrightarrow> objects mem a = Some ob \<Longrightarrow> owns_array mem a"
  by (auto simp: class_invariant_def)

lemma class_invariant_unshared:
  "class_invariant mem \<Longrightarrow> objects mem a = Some oa \<Longrightarrow> objects mem b = Some ob \<Longrightarrow> a \<noteq> b \<Longrightarrow>
   data_ptr oa \<noteq> data_ptr ob"
  by (fastforce simp: class_invariant_def)

lemma fresh_copy_independent:
  assumes inv: "class_invariant mem"
    and sb: "objects mem s = Some sb" and src: "arrays mem (data_ptr sb) = Some src"
    and cs: "c \<noteq> s"
    and keep: "\<And>a ob. a \<noteq> c \<Longrightarrow> objects mem a = Some ob
                 \<Longrightarrow> A (data_ptr ob) = arrays mem (data_ptr ob)"
    and p: "p \<notin> dom A"
    and mem': "mem' = mem\<lparr>objects := (objects mem)(c \<mapsto> \<lparr>data_ptr = p, length_fld = length_fld sb\<rparr>),
                         arrays := A(p \<mapsto> stringCopy src (length_fld sb) @ [0])\<rparr>"
  shows "independent_copy mem (Inr mem') c s"
proof -
  define len where "len = length_fld sb"
  define cpy where "cpy = stringCopy src len @ [0]"
  have "owns_array mem s"
    using inv sb by (rule class_invariant_owns)
  with sb src have len: "0 \<le> len" "int (length src) = len + 1"
    by (auto elim!: owns_arrayE simp: len_def)
  have cpy_len: "int (length cpy) = len + 1"
    using len by (simp add: cpy_def stringCopy_def)
  have cpy_take: "take (nat len) cpy = take (nat len) src"
    using len by (simp add: cpy_def stringCopy_def)
  have other: "A (data_ptr ob) = arrays mem (data_ptr ob) \<and> data_ptr ob \<noteq> p
                 \<and> arrays mem (data_ptr ob) \<noteq> None"
    if "a \<noteq> c" and "objects mem a = Some ob" for a ob
  proof -
    have "owns_array mem a"
      using inv that(2) by (rule class_invariant_owns)
    with that(2) obtain arr where "arrays mem (data_ptr ob) = Some arr"
      by (auto elim!: owns_arrayE)
    moreover have "A (data_ptr ob) = arrays mem (data_ptr ob)"
      using that by (rule keep)
    ultimately show ?thesis
      using p by auto
  qed
  have objc: "objects mem' c = Some \<lparr>data_ptr = p, length_fld = len\<rparr>"
    by (simp add: mem' len_def)
  have objo: "objects mem' a = objects mem a" if "a \<noteq> c" for a
    using that by (simp add: mem')
  have arrp: "arrays mem' p = Some cpy"
    by (simp add: mem' cpy_def len_def)
  have arro: "arrays mem' (data_ptr ob) = arrays mem (data_ptr ob)"
    if "a \<noteq> c" and "objects mem a = Some ob" for a ob
    using other [OF that] by (simp add: mem')
  have ps: "data_ptr sb \<noteq> p"
    using other [OF cs [symmetric] sb] by simp
  have objs: "objects mem' s = Some sb"
    using objo [of s] cs sb by simp
  have arrs: "arrays mem' (data_ptr sb) = Some src"
    using arro [OF cs [symmetric] sb] src by simp
  have owns: "owns_array mem' a" if "a \<in> dom (objects mem')" for a
  proof (cases "a = c")
    case True
    show ?thesis
      unfolding True using objc arrp len(1) cpy_len
      by (rule owns_arrayI [where ob = "\<lparr>data_ptr = p, length_fld = len\<rparr>", simplified])
  next
    case False
    with that obtain ob where ob: "objects mem a = Some ob"
      by (auto simp: objo)
    have "owns_array mem a"
      using inv ob by (rule class_invariant_owns)
    with ob obtain arr where "arrays mem (data_ptr ob) = Some arr"
      and "0 \<le> length_fld ob" and "int (length arr) = length_fld ob + 1"
      by (auto elim!: owns_arrayE)
    with ob False show ?thesis
      by (intro owns_arrayI [of mem' a ob arr]) (simp_all add: objo arro [OF False ob])
  qed
  have unshared: "data_ptr (the (objects mem' a)) \<noteq> data_ptr (the (objects mem' b))"
    if "a \<in> dom (objects mem')" and "b \<in> dom (objects mem')" and "a \<noteq> b" for a b
  proof (cases "a = c")
    case True
    with that have "b \<noteq> c" by simp
    with that(2) obtain ob where ob: "objects mem b = Some ob"
      by (auto simp: objo)
    with \<open>b \<noteq> c\<close> True objc other [OF \<open>b \<noteq> c\<close> ob] show ?thesis
      by (simp add: objo)
  next
    case False
    with that(1) obtain oa where oa: "objects mem a = Some oa"
      by (auto simp: objo)
    show ?thesis
    proof (cases "b = c")
      case True
      with False oa objc other [OF False oa] show ?thesis
        by (simp add: objo)
    next
      case bc: False
      with that(2) obtain ob where ob: "objects mem b = Some ob"
        by (auto simp: objo)
      from class_invariant_unshared [OF inv oa ob that(3)] False bc oa ob show ?thesis
        by (simp add: objo)
    qed
  qed
  have inv': "class_invariant mem'"
    unfolding class_invariant_def using owns unshared by blast
  have val_orig: "value_of mem' s = value_of mem s"
    by (simp add: value_of_def objs arrs sb src)
  have val_s: "value_of mem' s = Some \<lparr>data = take (nat len) src\<rparr>"
    by (simp add: value_of_def objs arrs len_def)
  have val_c: "value_of mem' c = Some \<lparr>data = take (nat len) src\<rparr>"
    by (simp add: value_of_def objc arrp cpy_take)
  have eq: "\<exists>a b. value_of mem' c = Some a \<and> value_of mem' s = Some b \<and> operator_eq a b"
    using val_s val_c by (simp add: operator_eq_iff)
  have write_c: "value_of mem'' s = value_of mem' s"
    if "subscript_write mem' c i ch = Inr mem''" for i ch mem''
  proof -
    from that have "mem'' = mem'\<lparr>arrays := (arrays mem')(p \<mapsto> cpy[nat i := ch])\<rparr>"
      by (simp add: subscript_write_def objc arrp split: if_splits)
    then show ?thesis
      using ps by (simp add: value_of_def objs)
  qed
  have write_s: "value_of mem'' c = value_of mem' c"
    if "subscript_write mem' s i ch = Inr mem''" for i ch mem''
  proof -
    from that have "mem'' = mem'\<lparr>arrays := (arrays mem')(data_ptr sb \<mapsto> src[nat i := ch])\<rparr>"
      by (simp add: subscript_write_def objs arrs split: if_splits)
    then show ?thesis
      using ps by (simp add: value_of_def objc)
  qed
  have defined: "\<exists>mem''. subscript_write mem' x i ch = Inr mem''"
    if "x \<in> {c, s}" and "0 \<le> i" and "i < length_fld (the (objects mem' x))" for x i ch
  proof (cases "x = c")
    case True
    with that objc cpy_len show ?thesis
      by (simp add: subscript_write_def arrp)
  next
    case False
    with that have "x = s" by simp
    with that objs len show ?thesis
      by (simp add: subscript_write_def arrs len_def)
  qed
  show ?thesis
    unfolding independent_copy_def
    using inv' val_orig eq write_c write_s defined by blast
qed

lemma class_invariant_empty: "class_invariant empty_memory"
  by (simp add: class_invariant_def empty_memory_def)

lemma cstr_array_length:
  "int (length (stringCopy cs (stringLength (Some cs)) @ [0])) = stringLength (Some cs) + 1"
  using length_takeWhile_le [of "\<lambda>c. c \<noteq> 0" cs]
  by (simp add: stringCopy_def stringLength_Some)

lemma cstr_constructor_invariant:
  assumes inv: "class_invariant mem"
    and new: "this \<notin> dom (objects mem)" and p: "p \<notin> dom (arrays mem)"
  shows "class_invariant (cstr_constructor mem this p str)"
proof -
  define len where "len = (case str of None \<Rightarrow> 0 | Some cs \<Rightarrow> stringLength str)"
  define arr where "arr = (case str of None \<Rightarrow> [0] | Some cs \<Rightarrow> stringCopy cs (stringLength str) @ [0])"
  define mem' where "mem' = cstr_constructor mem this p str"
  have mem': "mem' = mem\<lparr>objects := (objects mem)(this \<mapsto> \<lparr>data_ptr = p, length_fld = len\<rparr>),
                         arrays := (arrays mem)(p \<mapsto> arr)\<rparr>"
    by (cases str) (simp_all add: mem'_def cstr_constructor_def len_def arr_def)
  have len: "0 \<le> len \<and> int (length arr) = len + 1"
  proof (cases str)
    case None
    then show ?thesis by (simp add: len_def arr_def)
  next
    case (Some cs)
    then show ?thesis
      using cstr_array_length [of cs] by (simp add: len_def arr_def stringLength_Some)
  qed
  have other: "data_ptr ob \<noteq> p \<and> owns_array mem a"
    if "objects mem a = Some ob" for a ob
  proof -
    have "owns_array mem a"
      using inv that by (rule class_invariant_owns)
    with that p show ?thesis
      by (auto elim!: owns_arrayE)
  qed
  have owns: "owns_array mem' a" if "a \<in> dom (objects mem')" for a
  proof (cases "a = this")
    case True
    then show ?thesis
      using len by (simp add: owns_array_def mem')
  next
    case False
    with that obtain ob where ob: "objects mem a = Some ob"
      by (auto simp: mem')
    with other [OF ob] False show ?thesis
      by (auto simp: owns_array_def mem' split: option.splits)
  qed
  have unshared: "data_ptr (the (objects mem' a)) \<noteq> data_ptr (the (objects mem' b))"
    if "a \<in> dom (objects mem')" and "b \<in> dom (objects mem')" and "a \<noteq> b" for a b
  proof (cases "a = this")
    case True
    with that obtain ob where ob: "objects mem b = Some ob"
      by (auto simp: mem')
    with True that(3) other [OF ob] show ?thesis
      by (simp add: mem')
  next
    case False
    with that(1) obtain oa where oa: "objects mem a = Some oa"
      by (auto simp: mem')
    show ?thesis
    proof (cases "b = this")
      case True
      with False oa other [OF oa] show ?thesis
        by (simp add: mem')
    next
      case bt: False
      with that(2) obtain ob where ob: "objects mem b = Some ob"
        by (auto simp: mem')
      from class_invariant_unshared [OF inv oa ob that(3)] False bt oa ob show ?thesis
        by (simp add: mem')
    qed
  qed
  show ?thesis
    unfolding class_invariant_def mem'_def [symmetric] using owns unshared by blast
qed


text \<open>
  A write through \<^verbatim>\<open>operator[]\<close> at a position of the string, seen in the memory and seen on
  the string the object stands for.
\<close>

lemma subscript_write_value_of:
  assumes "owns_array mem a" and "value_of mem a = Some v"
    and "operator_index_write v i c = Inr v'"
  shows "\<exists>mem'. subscript_write mem a i c = Inr mem' \<and> value_of mem' a = Some v'"
proof -
  from assms(1) obtain ob arr where ob: "objects mem a = Some ob"
    and arr: "arrays mem (data_ptr ob) = Some arr"
    and len: "0 \<le> length_fld ob" "int (length arr) = length_fld ob + 1"
    by (rule owns_arrayE)
  from assms(2) have v: "v = \<lparr>data = take (nat (length_fld ob)) arr\<rparr>"
    by (simp add: value_of_def ob arr)
  from assms(3) have i: "0 \<le> i" "i < length_fld ob"
    and v': "v' = \<lparr>data = (take (nat (length_fld ob)) arr)[nat i := c]\<rparr>"
    using len by (auto simp: operator_index_write_def DSString_size_def v split: if_splits)
  have "take (nat (length_fld ob)) (arr[nat i := c]) = (take (nat (length_fld ob)) arr)[nat i := c]"
    using i by (simp add: take_update_swap)
  then show ?thesis
    using i len by (simp add: subscript_write_def value_of_def ob arr v')
qed
text \<open>
  Claim C9. In a memory where the class invariant holds, for a string \<open>s\<close>: the copy
  constructor run for a new object \<open>this\<close> with a fresh array \<open>p\<close> gives a copy that is equal
  to \<open>s\<close> and owns its array: a write through \<^verbatim>\<open>operator[]\<close> into the copy leaves \<open>s\<close> as it
  is, and a write into \<open>s\<close> leaves the copy as it is. The same holds for the copy assignment
  to another object \<open>t\<close> with the array \<open>q\<close> that \<^verbatim>\<open>new\<close> returns after the old array of \<open>t\<close> is
  deleted. The assignment of \<open>s\<close> to itself changes nothing.
\<close>

theorem copies_are_independent:
  assumes inv: "class_invariant mem" and s: "s \<in> dom (objects mem)"
  shows "(this \<notin> dom (objects mem) \<and> p \<notin> dom (arrays mem)
            \<longrightarrow> independent_copy mem (copy_constructor mem this p s) this s)
       \<and> (t \<in> dom (objects mem) \<and> t \<noteq> s
            \<and> q \<notin> dom (arrays mem) - {data_ptr (the (objects mem t))}
            \<longrightarrow> independent_copy mem (operator_assign mem t q s) t s)
       \<and> operator_assign mem s q s = Inr mem"
proof -
  from s obtain sb where sb: "objects mem s = Some sb" by auto
  have "owns_array mem s"
    using inv sb by (rule class_invariant_owns)
  with sb obtain src where src: "arrays mem (data_ptr sb) = Some src"
    by (auto elim!: owns_arrayE)
  have first: "independent_copy mem (copy_constructor mem this p s) this s"
    if new: "this \<notin> dom (objects mem)" and p: "p \<notin> dom (arrays mem)"
  proof -
    have this_s: "this \<noteq> s"
      using new s by auto
    have copy: "copy_constructor mem this p s =
        Inr (mem\<lparr>objects := (objects mem)(this \<mapsto> \<lparr>data_ptr = p, length_fld = length_fld sb\<rparr>),
                 arrays := (arrays mem)(p \<mapsto> stringCopy src (length_fld sb) @ [0])\<rparr>)"
      by (simp add: copy_constructor_def sb src)
    show ?thesis
      unfolding copy
      by (rule fresh_copy_independent [OF inv sb src this_s _ p refl]) (rule refl)
  qed
  have second: "independent_copy mem (operator_assign mem t q s) t s"
    if t: "t \<in> dom (objects mem)" and ts: "t \<noteq> s"
      and q: "q \<notin> dom (arrays mem) - {data_ptr (the (objects mem t))}"
  proof -
    from t obtain tb where tb: "objects mem t = Some tb" by auto
    have diff: "data_ptr tb \<noteq> data_ptr sb"
      using inv tb sb ts by (rule class_invariant_unshared)
    let ?A = "(arrays mem)(data_ptr tb := None)"
    have assign: "operator_assign mem t q s =
        Inr (mem\<lparr>objects := (objects mem)(t \<mapsto> \<lparr>data_ptr = q, length_fld = length_fld sb\<rparr>),
                 arrays := ?A(q \<mapsto> stringCopy src (length_fld sb) @ [0])\<rparr>)"
      using ts diff by (simp add: operator_assign_def sb tb src Let_def)
    have keep: "?A (data_ptr ob) = arrays mem (data_ptr ob)"
      if "a \<noteq> t" and "objects mem a = Some ob" for a ob
      using class_invariant_unshared [OF inv that(2) tb that(1)] by simp
    have fresh: "q \<notin> dom ?A"
      using q tb by auto
    show ?thesis
      unfolding assign
      by (rule fresh_copy_independent [OF inv sb src ts keep fresh refl])
  qed
  have third: "operator_assign mem s q s = Inr mem"
    by (simp add: operator_assign_def)
  from first second third show ?thesis by blast
qed

theorem copies_are_independent_witness:
  "(\<exists>m1 m2.
      copy_constructor (cstr_constructor empty_memory 0 10 (Some (bytes ''hello''))) 1 11 0 = Inr m1
      \<and> subscript_write m1 0 0 106 = Inr m2
      \<and> value_of m1 1 = Some \<lparr>data = bytes ''hello''\<rparr>
      \<and> value_of m2 0 = Some \<lparr>data = bytes ''jello''\<rparr>
      \<and> value_of m2 1 = Some \<lparr>data = bytes ''hello''\<rparr>)
   \<and> (\<exists>m1 m2.
      operator_assign
        (cstr_constructor (cstr_constructor empty_memory 0 10 (Some (bytes ''hello''))) 1 11 None)
        1 11 0 = Inr m1
      \<and> subscript_write m1 0 0 106 = Inr m2
      \<and> value_of m1 1 = Some \<lparr>data = bytes ''hello''\<rparr>
      \<and> value_of m2 0 = Some \<lparr>data = bytes ''jello''\<rparr>
      \<and> value_of m2 1 = Some \<lparr>data = bytes ''hello''\<rparr>)"
proof -
  let ?one = "cstr_constructor empty_memory 0 10 (Some (bytes ''hello''))"
  let ?two = "cstr_constructor ?one 1 11 None"
  have inv1: "class_invariant ?one"
    by (intro cstr_constructor_invariant class_invariant_empty)
      (simp_all add: empty_memory_def)
  have inv2: "class_invariant ?two"
    using inv1 by (rule cstr_constructor_invariant)
      (simp_all add: cstr_constructor_def empty_memory_def)
  have h1: "(0 :: addr) \<in> dom (objects ?one)"
    "(1 :: addr) \<notin> dom (objects ?one) \<and> (11 :: addr) \<notin> dom (arrays ?one)"
    by (simp_all add: cstr_constructor_def empty_memory_def)
  have h2: "(0 :: addr) \<in> dom (objects ?two)"
    "(1 :: addr) \<in> dom (objects ?two) \<and> (1 :: addr) \<noteq> 0
       \<and> (11 :: addr) \<notin> dom (arrays ?two) - {data_ptr (the (objects ?two 1))}"
    by (simp_all add: cstr_constructor_def empty_memory_def)
  have copy: "independent_copy ?one (copy_constructor ?one 1 11 0) 1 0"
    using copies_are_independent [OF inv1 h1(1), of 1 11] h1(2) by blast
  have assign: "independent_copy ?two (operator_assign ?two 1 11 0) 1 0"
    using copies_are_independent [OF inv2 h2(1), of _ _ 1 11] h2(2) by blast
  show ?thesis
    using copy assign
    by (simp add: cstr_constructor_def empty_memory_def copy_constructor_def
        operator_assign_def subscript_write_def value_of_def stringLength_def stringCopy_def
        bytes_def Let_def)
qed

end
